theory Spec2Isabelle
  imports Complex_Main
begin

section \<open>Python values\<close>

text \<open>
  The script \<^verbatim>\<open>RetirementCalculator.py\<close> computes with Python's unbounded integers and
  with floats. Integers are \<^typ>\<open>int\<close>. A finite float is a rational number, so rates and
  random draws are \<^typ>\<open>rat\<close>, and \<^verbatim>\<open>int(x)\<close> of a float is exactly truncation toward
  zero. The float sums and products (\<^verbatim>\<open>1 + i\<close>, \<^verbatim>\<open>investments * (1 + i)\<close>, the true
  division \<^verbatim>\<open>/\<close>) are taken exactly here, where the machine rounds each to the nearest
  double.
\<close>

datatype py_error =
  ValueError | ZeroDivisionError | IndexError | UnboundLocalError | SystemExit int

definition py_int :: "rat \<Rightarrow> int" where
  \<comment> \<open>\<^verbatim>\<open>int(x)\<close> on a float\<close>
  "py_int x = (if 0 \<le> x then \<lfloor>x\<rfloor> else \<lceil>x\<rceil>)"

definition py_range :: "int \<Rightarrow> int \<Rightarrow> int list" where
  \<comment> \<open>\<^verbatim>\<open>range(a, b)\<close>\<close>
  "py_range a b = [a..b - 1]"

definition py_mod :: "int \<Rightarrow> nat \<Rightarrow> py_error + int" where
  \<comment> \<open>\<^verbatim>\<open>i % len(xs)\<close>: the sign of the result follows the divisor\<close>
  "py_mod i n = (if n = 0 then Inl ZeroDivisionError else Inr (i mod int n))"

definition py_get :: "'a list \<Rightarrow> int \<Rightarrow> py_error + 'a" where
  \<comment> \<open>\<^verbatim>\<open>xs[i]\<close>: an index from \<open>-len(xs)\<close> up to \<open>-1\<close> counts from the end\<close>
  "py_get xs i =
     (if 0 \<le> i \<and> i < int (length xs) then Inr (xs ! nat i)
      else if i < 0 \<and> - int (length xs) \<le> i then Inr (xs ! nat (int (length xs) + i))
      else Inl IndexError)"

definition round_half_even :: "rat \<Rightarrow> int" where
  "round_half_even x =
     (let f = \<lfloor>x\<rfloor>; d = x - of_int f
      in if d < 1 / 2 then f else if 1 / 2 < d then f + 1
         else if even f then f else f + 1)"

definition py_round1 :: "rat \<Rightarrow> rat" where
  \<comment> \<open>\<^verbatim>\<open>round(x, 1)\<close>; at a tie Python rounds the double nearest \<open>x\<close>, which lies on
      one side of it, where this rounds the exact \<open>x\<close> half to even\<close>
  "py_round1 x = of_int (round_half_even (x * 10)) / 10"

section \<open>The parameters read at module level\<close>

text \<open>
  Each prompt is repeated until \<^verbatim>\<open>str.isdigit()\<close> holds, so every global is a string of
  digits; it is modelled by the natural number it denotes, and the script's \<^verbatim>\<open>int(...)\<close>
  around each use is the injection \<^const>\<open>int\<close>.
\<close>

record params =
  start_value :: nat
  withdrawal :: nat
  min_years :: nat
  most_likely_years :: nat
  max_years :: nat
  num_cases :: nat

definition years_rejected :: "params \<Rightarrow> bool" where
  \<comment> \<open>lines 100-101, the condition under which the script calls \<^verbatim>\<open>sys.exit(1)\<close>\<close>
  "years_rejected p =
     (\<not> (int (min_years p) < int (most_likely_years p)
          \<and> int (most_likely_years p) < int (max_years p))
      \<or> int (max_years p) > 99)"

definition default_params :: params where
  \<comment> \<open>the defaults of the prompts, lines 69-95\<close>
  "default_params =
     \<lparr>start_value = 2000000, withdrawal = 80000, min_years = 18,
      most_likely_years = 25, max_years = 40, num_cases = 50000\<rparr>"

section \<open>One case of the simulation\<close>

definition randrange :: "nat \<Rightarrow> nat \<Rightarrow> py_error + int" where
  \<comment> \<open>\<^verbatim>\<open>random.randrange(0, n)\<close>, \<open>r\<close> being the number the generator yields\<close>
  "randrange n r = (if n = 0 then Inl ValueError else Inr (int r))"

definition duration_of :: "rat \<Rightarrow> int" where
  \<comment> \<open>lines 120-121, \<open>x\<close> being the value \<^verbatim>\<open>random.triangular\<close> returns\<close>
  "duration_of x = py_int x"

fun build_lists ::
  "rat list \<Rightarrow> rat list \<Rightarrow> int list \<Rightarrow> rat list \<Rightarrow> rat list
     \<Rightarrow> py_error + (rat list \<times> rat list)" where
  \<comment> \<open>lines 130-134, with the two lists built so far\<close>
  "build_lists returns infl_rate [] lifespan_returns lifespan_infl =
     Inr (lifespan_returns, lifespan_infl)"
| "build_lists returns infl_rate (i # rest) lifespan_returns lifespan_infl =
     (case py_mod i (length returns) of Inl e \<Rightarrow> Inl e | Inr a \<Rightarrow>
      case py_get returns a of Inl e \<Rightarrow> Inl e | Inr r \<Rightarrow>
      case py_mod i (length infl_rate) of Inl e \<Rightarrow> Inl e | Inr b \<Rightarrow>
      case py_get infl_rate b of Inl e \<Rightarrow> Inl e | Inr f \<Rightarrow>
        build_lists returns infl_rate rest (lifespan_returns @ [r]) (lifespan_infl @ [f]))"

definition sample_years ::
  "rat list \<Rightarrow> rat list \<Rightarrow> int \<Rightarrow> int \<Rightarrow> py_error + (rat list \<times> rat list)" where
  \<comment> \<open>lines 123-134\<close>
  "sample_years returns infl_rate start_year duration =
     (let end_year = start_year + duration;
          lifespan = py_range start_year end_year
      in build_lists returns infl_rate lifespan [] [])"

definition year_step ::
  "nat \<Rightarrow> nat \<Rightarrow> rat \<Rightarrow> rat \<Rightarrow> int \<Rightarrow> int option \<Rightarrow> py_error + (int \<times> int \<times> int)" where
  \<comment> \<open>lines 141-150: the withdrawal applied, the balance after it, the balance after growth\<close>
  "year_step w index infl i investments withdraw_inf_adj =
     (case (if index = 0 then Inr (int w)
            else (case withdraw_inf_adj of
                    None \<Rightarrow> Inl UnboundLocalError
                  | Some a \<Rightarrow> Inr (py_int (of_int a * (1 + infl))))) of
        Inl e \<Rightarrow> Inl e
      | Inr adj \<Rightarrow> Inr (adj, investments - adj, py_int (of_int (investments - adj) * (1 + i))))"

fun year_loop ::
  "nat \<Rightarrow> rat list \<Rightarrow> (nat \<times> rat) list \<Rightarrow> int \<Rightarrow> int option \<Rightarrow> py_error + (int \<times> bool)" where
  \<comment> \<open>lines 137-154; the flag is \<^verbatim>\<open>bankrupt == 'yes'\<close>\<close>
  "year_loop w lifespan_infl [] investments withdraw_inf_adj = Inr (investments, False)"
| "year_loop w lifespan_infl ((index, i) # rest) investments withdraw_inf_adj =
     (case py_get lifespan_infl (int index) of Inl e \<Rightarrow> Inl e | Inr infl \<Rightarrow>
      case year_step w index infl i investments withdraw_inf_adj of Inl e \<Rightarrow> Inl e
      | Inr (adj, after_withdrawal, after_growth) \<Rightarrow>
          if after_growth \<le> 0 then Inr (after_growth, True)
          else year_loop w lifespan_infl rest after_growth (Some adj))"

text \<open>
  \<^verbatim>\<open>withdraw_inf_adj\<close> is unbound when the first case starts; a later case starts with the
  value the previous case left. The model starts every case with it unbound, the stricter
  of the two, so that a read before the assignment at \<^verbatim>\<open>index == 0\<close> would show as
  \<^const>\<open>UnboundLocalError\<close>.
\<close>

definition trial ::
  "params \<Rightarrow> rat list \<Rightarrow> rat list \<Rightarrow> nat \<times> rat \<Rightarrow> py_error + (int \<times> bool)" where
  \<comment> \<open>lines 116-154 for the draws \<open>(r, x)\<close>: the final \<^verbatim>\<open>investments\<close> and the flag\<close>
  "trial p returns infl_rate rnd =
     (let investments = int (start_value p)
      in case randrange (length returns) (fst rnd) of Inl e \<Rightarrow> Inl e | Inr start_year \<Rightarrow>
         let duration = duration_of (snd rnd)
         in case sample_years returns infl_rate start_year duration of Inl e \<Rightarrow> Inl e
            | Inr (lifespan_returns, lifespan_infl) \<Rightarrow>
                year_loop (withdrawal p) lifespan_infl (enumerate 0 lifespan_returns)
                  investments None)"

definition run_case ::
  "params \<Rightarrow> rat list \<Rightarrow> rat list \<Rightarrow> nat \<times> rat \<Rightarrow> nat \<times> int list
     \<Rightarrow> py_error + (nat \<times> int list)" where
  \<comment> \<open>lines 116-162 on the state \<open>(bankrupt_count, outcome)\<close>\<close>
  "run_case p returns infl_rate rnd st =
     (case trial p returns infl_rate rnd of Inl e \<Rightarrow> Inl e
      | Inr (investments, bankrupt) \<Rightarrow>
          if bankrupt then Inr (fst st + 1, snd st @ [0])
          else Inr (fst st, snd st @ [investments]))"

section \<open>The driving loop and the statistics\<close>

function montecarlo_loop ::
  "params \<Rightarrow> rat list \<Rightarrow> rat list \<Rightarrow> (nat \<Rightarrow> nat \<times> rat) \<Rightarrow> nat \<Rightarrow> nat \<times> int list
     \<Rightarrow> py_error + (int list \<times> nat)" where
  \<comment> \<open>lines 115-166; \<open>rng k\<close> is the pair of draws of case \<open>k\<close>\<close>
  "montecarlo_loop p returns infl_rate rng case_count st =
     (if int case_count < int (num_cases p) then
        (case run_case p returns infl_rate (rng case_count) st of Inl e \<Rightarrow> Inl e
         | Inr st' \<Rightarrow> montecarlo_loop p returns infl_rate rng (case_count + 1) st')
      else Inr (snd st, fst st))"
  by pat_completeness auto
termination
  by (relation "measure (\<lambda>(p, returns, infl_rate, rng, case_count, st).
                  num_cases p - case_count)") auto

declare montecarlo_loop.simps [simp del]

definition montecarlo ::
  "params \<Rightarrow> rat list \<Rightarrow> rat list \<Rightarrow> (nat \<Rightarrow> nat \<times> rat) \<Rightarrow> py_error + (int list \<times> nat)" where
  "montecarlo p returns infl_rate rng = montecarlo_loop p returns infl_rate rng 0 (0, [])"

record stats =
  odds :: rat
  average :: int
  minimum :: int
  maximum :: int

definition bankrupt_prob :: "int list \<Rightarrow> nat \<Rightarrow> py_error + stats" where
  \<comment> \<open>lines 171-186: \<open>odds\<close> is returned, the other three are printed\<close>
  "bankrupt_prob outcome bankrupt_count =
     (let total = length outcome
      in if total = 0 then Inl ZeroDivisionError
         else Inr \<lparr>odds = py_round1 (of_int (100 * int bankrupt_count) / of_nat total),
                   average = py_int (of_int (sum_list outcome) / of_nat total),
                   minimum = fold min (tl outcome) (hd outcome),
                   maximum = fold max (tl outcome) (hd outcome)\<rparr>)"

definition main :: "params \<Rightarrow> rat list \<Rightarrow> rat list \<Rightarrow> (nat \<Rightarrow> nat \<times> rat) \<Rightarrow> py_error + stats" where
  \<comment> \<open>lines 191-192\<close>
  "main p returns infl_rate rng =
     (case montecarlo p returns infl_rate rng of Inl e \<Rightarrow> Inl e
      | Inr (outcome, bankrupt_count) \<Rightarrow> bankrupt_prob outcome bankrupt_count)"

definition script :: "params \<Rightarrow> rat list \<Rightarrow> rat list \<Rightarrow> (nat \<Rightarrow> nat \<times> rat) \<Rightarrow> py_error + stats" where
  \<comment> \<open>lines 100-104 followed by line 211\<close>
  "script p returns infl_rate rng =
     (if years_rejected p then Inl (SystemExit 1) else main p returns infl_rate rng)"

section \<open>The recurrence in the specification's words\<close>



section \<open>What a case contributes\<close>

definition insolvent :: "params \<Rightarrow> rat list \<Rightarrow> rat list \<Rightarrow> nat \<times> rat \<Rightarrow> bool" where
  \<comment> \<open>the case with draws \<open>rnd\<close> ends with \<^verbatim>\<open>bankrupt == 'yes'\<close>\<close>
  "insolvent p returns infl_rate rnd =
     (case trial p returns infl_rate rnd of Inl e \<Rightarrow> False | Inr (v, b) \<Rightarrow> b)"

definition recorded :: "params \<Rightarrow> rat list \<Rightarrow> rat list \<Rightarrow> nat \<times> rat \<Rightarrow> int" where
  \<comment> \<open>the entry the case with draws \<open>rnd\<close> appends to \<^verbatim>\<open>outcome\<close>\<close>
  "recorded p returns infl_rate rnd =
     (case trial p returns infl_rate rnd of Inl e \<Rightarrow> 0
      | Inr (v, b) \<Rightarrow> if b then 0 else v)"

section \<open>Arithmetic of the Python operations\<close>

lemma floor_rat_numeral [simp]:
  "\<lfloor>numeral a / numeral b :: rat\<rfloor> = numeral a div numeral b"
  using floor_divide_of_int_eq [of "numeral a" "numeral b", where ?'a = rat] by simp

lemma py_int_of_int [simp]: "py_int (of_int k) = k"
  by (simp add: py_int_def)

lemma py_int_le_zero: "x \<le> 0 \<Longrightarrow> py_int x \<le> 0"
  by (simp add: py_int_def)

lemma py_int_bounds:
  assumes "of_int lo \<le> x" and "x \<le> of_int hi"
  shows "lo \<le> py_int x \<and> py_int x \<le> hi"
proof (cases "0 \<le> x")
  case True
  then have "py_int x = \<lfloor>x\<rfloor>" by (simp add: py_int_def)
  moreover have "lo \<le> \<lfloor>x\<rfloor>" using assms(1) by (simp add: le_floor_iff)
  moreover have "\<lfloor>x\<rfloor> \<le> hi" using assms(2) by (simp add: floor_le_iff)
  ultimately show ?thesis by simp
next
  case False
  then have "py_int x = \<lceil>x\<rceil>" by (simp add: py_int_def)
  moreover have "\<lceil>x\<rceil> \<le> hi" using assms(2) by (simp add: ceiling_le_iff)
  moreover have "lo \<le> \<lceil>x\<rceil>" using assms(1) by (simp add: le_ceiling_iff)
  ultimately show ?thesis by simp
qed

lemma py_get_in_range:
  "0 \<le> j \<Longrightarrow> j < int (length xs) \<Longrightarrow> py_get xs j = Inr (xs ! nat j)"
  by (simp add: py_get_def)

lemma py_get_mod:
  "xs \<noteq> [] \<Longrightarrow> py_get xs (i mod int (length xs)) = Inr (xs ! nat (i mod int (length xs)))"
  by (rule py_get_in_range) simp_all





section \<open>The sampler\<close>

lemma build_lists_ok:
  assumes "returns \<noteq> []" and "infl_rate \<noteq> []"
  shows "build_lists returns infl_rate lifespan lr li =
           Inr (lr @ map (\<lambda>i. returns ! nat (i mod int (length returns))) lifespan,
                li @ map (\<lambda>i. infl_rate ! nat (i mod int (length infl_rate))) lifespan)"
  using assms
  by (induction lifespan arbitrary: lr li) (simp_all add: py_mod_def py_get_mod)

lemma sample_years_ok:
  assumes "returns \<noteq> []" and "infl_rate \<noteq> []"
  shows "sample_years returns infl_rate s d =
           Inr (map (\<lambda>i. returns ! nat (i mod int (length returns))) [s..s + d - 1],
                map (\<lambda>i. infl_rate ! nat (i mod int (length infl_rate))) [s..s + d - 1])"
  using build_lists_ok [OF assms, of "py_range s (s + d)" "[]" "[]"]
  by (simp add: sample_years_def py_range_def)


section \<open>The year loop\<close>


lemma year_loop_sign:
  "year_loop w li xs bal wia = Inr (v, b)
     \<Longrightarrow> (b \<longrightarrow> v \<le> 0) \<and> (\<not> b \<longrightarrow> (if xs = [] then v = bal else 0 < v))"
proof (induction xs arbitrary: bal wia)
  case Nil
  then show ?case by auto
next
  case (Cons a xs)
  obtain index i where a: "a = (index, i)" by (cases a)
  from Cons.prems show ?case
    by (auto simp: a split: sum.splits prod.splits if_splits dest!: Cons.IH)
qed

lemma year_step_ok:
  "index = 0 \<or> wia \<noteq> None \<Longrightarrow>
     \<exists>adj. year_step w index infl i bal wia =
       Inr (adj, bal - adj, py_int (of_int (bal - adj) * (1 + i)))"
  by (auto simp: year_step_def)

lemma year_loop_ok:
  "n + length lr \<le> length li \<Longrightarrow> n = 0 \<or> wia \<noteq> None \<Longrightarrow>
     \<exists>res. year_loop w li (enumerate n lr) bal wia = Inr res"
proof (induction lr arbitrary: n bal wia)
  case Nil
  show ?case by auto
next
  case (Cons r lr)
  from Cons.prems(1) have get: "py_get li (int n) = Inr (li ! n)"
    by (simp add: py_get_in_range)
  from year_step_ok [OF Cons.prems(2)] obtain adj where
    step: "year_step w n (li ! n) r bal wia =
             Inr (adj, bal - adj, py_int (of_int (bal - adj) * (1 + r)))"
    by blast
  from Cons.prems(1) have "Suc n + length lr \<le> length li" by simp
  from Cons.IH [OF this, of "Some adj"] show ?case
    by (auto simp: get step)
qed

lemma trial_sign:
  assumes "trial p returns infl_rate rnd = Inr (v, b)"
  shows "(b \<longrightarrow> v \<le> 0) \<and> (\<not> b \<longrightarrow> v = int (start_value p) \<or> 0 < v)"
proof -
  from assms obtain lr li where
    "year_loop (withdrawal p) li (enumerate 0 lr) (int (start_value p)) None = Inr (v, b)"
    by (auto simp: trial_def Let_def split: sum.splits prod.splits)
  from year_loop_sign [OF this] show ?thesis
    by (auto split: if_splits)
qed


section \<open>The year loop against the recurrence\<close>





section \<open>Cases and the driving loop\<close>

lemma trial_ok:
  assumes "returns \<noteq> []" and "infl_rate \<noteq> []"
  shows "\<exists>res. trial p returns infl_rate rnd = Inr res"
proof -
  let ?s = "int (fst rnd)" and ?d = "duration_of (snd rnd)"
  let ?lr = "map (\<lambda>i. returns ! nat (i mod int (length returns))) [?s..?s + ?d - 1]"
  let ?li = "map (\<lambda>i. infl_rate ! nat (i mod int (length infl_rate))) [?s..?s + ?d - 1]"
  have "0 + length ?lr \<le> length ?li" by simp
  from year_loop_ok [OF this, of None "withdrawal p" "int (start_value p)"]
  obtain res where
    "year_loop (withdrawal p) ?li (enumerate 0 ?lr) (int (start_value p)) None = Inr res"
    by blast
  then have "trial p returns infl_rate rnd = Inr res"
    using assms by (simp add: trial_def randrange_def sample_years_ok [OF assms])
  then show ?thesis ..
qed


lemma insolvent_recorded:
  assumes "returns \<noteq> []" and "infl_rate \<noteq> []"
  shows "run_case p returns infl_rate rnd (bc, out) =
           Inr (if insolvent p returns infl_rate rnd then bc + 1 else bc,
                out @ [recorded p returns infl_rate rnd])"
proof -
  from trial_ok [OF assms, of p rnd] obtain v b where
    "trial p returns infl_rate rnd = Inr (v, b)"
    by auto
  then show ?thesis
    by (simp add: run_case_def insolvent_def recorded_def)
qed

lemma montecarlo_loop_closed:
  assumes "returns \<noteq> []" and "infl_rate \<noteq> []"
  shows "case_count \<le> num_cases p \<Longrightarrow>
         montecarlo_loop p returns infl_rate rng case_count (bc, out) =
           Inr (out @ map (\<lambda>k. recorded p returns infl_rate (rng k)) [case_count..<num_cases p],
                bc + length (filter (\<lambda>k. insolvent p returns infl_rate (rng k))
                               [case_count..<num_cases p]))"
proof (induction "num_cases p - case_count" arbitrary: case_count bc out)
  case 0
  then have "case_count = num_cases p" by simp
  then show ?case by (subst montecarlo_loop.simps) simp
next
  case (Suc d)
  then have lt: "case_count < num_cases p" by simp
  let ?b = "if insolvent p returns infl_rate (rng case_count) then bc + 1 else bc"
  let ?o = "out @ [recorded p returns infl_rate (rng case_count)]"
  have step: "montecarlo_loop p returns infl_rate rng case_count (bc, out) =
                montecarlo_loop p returns infl_rate rng (case_count + 1) (?b, ?o)"
    by (subst montecarlo_loop.simps) (simp only: lt of_nat_less_iff if_True
          insolvent_recorded [OF assms] sum.case)
  have hyp: "montecarlo_loop p returns infl_rate rng (case_count + 1) (?b, ?o) =
           Inr (?o @ map (\<lambda>k. recorded p returns infl_rate (rng k)) [case_count + 1..<num_cases p],
                ?b + length (filter (\<lambda>k. insolvent p returns infl_rate (rng k))
                               [case_count + 1..<num_cases p]))"
    by (rule Suc.hyps(1)) (use Suc.hyps(2) lt in simp_all)
  from lt have up: "[case_count..<num_cases p] = case_count # [case_count + 1..<num_cases p]"
    by (simp add: upt_conv_Cons)
  show ?case
    unfolding step hyp up by simp
qed

lemma recorded_zero_iff:
  assumes "returns \<noteq> []" and "infl_rate \<noteq> []" and "0 < start_value p"
  shows "recorded p returns infl_rate rnd = 0 \<longleftrightarrow> insolvent p returns infl_rate rnd"
proof -
  from trial_ok [OF assms(1,2), of p rnd] obtain v b where
    t: "trial p returns infl_rate rnd = Inr (v, b)"
    by auto
  from trial_sign [OF t] assms(3) show ?thesis
    by (auto simp: recorded_def insolvent_def t)
qed

lemma recorded_nonneg: "0 \<le> recorded p returns infl_rate rnd"
proof (cases "trial p returns infl_rate rnd")
  case (Inl e)
  then show ?thesis by (simp add: recorded_def)
next
  case (Inr r)
  obtain v b where "r = (v, b)" by (cases r)
  with Inr have t: "trial p returns infl_rate rnd = Inr (v, b)" by simp
  from trial_sign [OF t] show ?thesis
    by (auto simp: recorded_def t)
qed




section \<open>The claims\<close>





text \<open>
  C3. With non-empty series, the sampler returns for start index \<open>s\<close> and duration \<open>d\<close>
  two lists of length \<open>d\<close> whose entry at offset \<open>j\<close> is the return at index
  \<open>(s + j) mod L\<close> and the inflation rate at index \<open>(s + j) mod L_infl\<close>; from the last
  index and for two years the returns sampled are the last and the first of the series.
\<close>

theorem year_sequence_wraps_around:
  assumes "returns \<noteq> []" and "infl_rate \<noteq> []"
  shows "(\<exists>lr li. sample_years returns infl_rate (int s) (int d) = Inr (lr, li)
            \<and> length lr = d \<and> length li = d
            \<and> (\<forall>j<d. lr ! j = returns ! ((s + j) mod length returns)
                      \<and> li ! j = infl_rate ! ((s + j) mod length infl_rate)))
         \<and> (\<exists>li. sample_years returns infl_rate (int (length returns - 1)) 2 =
                    Inr ([returns ! (length returns - 1), returns ! 0], li))"
proof -
  have idx: "nat ((int s + int j) mod int n) = (s + j) mod n" for s j n
    by (simp add: zmod_int [symmetric] del: of_nat_add add: of_nat_add [symmetric])
  have nth: "j < d \<Longrightarrow> [int s..int s + int d - 1] ! j = int s + int j" for s d j
    by (rule nth_upto) simp
  have first: "\<exists>lr li. sample_years returns infl_rate (int s) (int d) = Inr (lr, li)
            \<and> length lr = d \<and> length li = d
            \<and> (\<forall>j<d. lr ! j = returns ! ((s + j) mod length returns)
                      \<and> li ! j = infl_rate ! ((s + j) mod length infl_rate))" for s d
    unfolding sample_years_ok [OF assms]
    by (intro exI conjI allI impI, rule refl) (simp_all add: nth idx)
  from assms(1) have L: "0 < length returns" by simp
  from first [of "length returns - 1" 2] obtain lr li where
    s: "sample_years returns infl_rate (int (length returns - 1)) (int 2) = Inr (lr, li)"
    and len: "length lr = 2"
    and el: "\<forall>j<2. lr ! j = returns ! ((length returns - 1 + j) mod length returns)"
    by blast
  from el have "lr ! 0 = returns ! ((length returns - 1) mod length returns)"
    and "lr ! 1 = returns ! ((length returns - 1 + 1) mod length returns)"
    by simp_all
  with L have e0: "lr ! 0 = returns ! (length returns - 1)" and e1: "lr ! 1 = returns ! 0"
    by simp_all
  from len obtain a b where ab: "lr = [a, b]"
    by (cases lr; cases "tl lr") auto
  with e0 e1 have "lr = [returns ! (length returns - 1), returns ! 0]" by simp
  with s have "\<exists>li. sample_years returns infl_rate (int (length returns - 1)) 2 =
                    Inr ([returns ! (length returns - 1), returns ! 0], li)"
    by auto
  with first [of s d] show ?thesis by blast
qed

theorem year_sequence_wraps_around_witness:
  "\<exists>li. sample_years [1, 2, 3] [4, 5] 2 2 = Inr ([3, 1], li)"
  using year_sequence_wraps_around [of "[1, 2, 3]" "[4, 5]" 0 0] by simp

text \<open>
  C4. The duration of a case is the triangular draw truncated to an integer: for every
  draw \<open>x\<close> between \<open>min_years\<close> and \<open>max_years\<close> it is the integer \<open>n\<close> with
  \<open>n \<le> x < n + 1\<close>, and it lies between \<open>min_years\<close> and \<open>max_years\<close>, both included.
\<close>

theorem duration_truncated_within_bounds:
  assumes "of_nat (min_years p) \<le> x" and "x \<le> of_nat (max_years p)"
  shows "int (min_years p) \<le> duration_of x \<and> duration_of x \<le> int (max_years p)
         \<and> of_int (duration_of x) \<le> x \<and> x < of_int (duration_of x) + 1"
proof -
  have "0 \<le> x" using assms(1) by (rule order_trans [rotated]) simp
  then have fl: "duration_of x = \<lfloor>x\<rfloor>" by (simp add: duration_of_def py_int_def)
  have "int (min_years p) \<le> py_int x \<and> py_int x \<le> int (max_years p)"
    by (rule py_int_bounds) (use assms in simp_all)
  then show ?thesis
    unfolding fl by (simp add: duration_of_def [symmetric] fl) linarith
qed

theorem duration_truncated_within_bounds_witness:
  "int (min_years default_params) \<le> duration_of (397 / 10)
   \<and> duration_of (397 / 10) \<le> int (max_years default_params)
   \<and> duration_of (397 / 10) = 39"
  using duration_truncated_within_bounds [of default_params "397 / 10"]
  by (simp add: default_params_def duration_of_def py_int_def)

text \<open>
  C5. With non-empty series and a positive starting value \<^const>\<open>montecarlo\<close> returns:
  the outcome list has \<open>num_cases\<close> entries, entry \<open>k\<close> being what case \<open>k\<close> records, and
  the bankrupt count is the number of insolvent cases, which is the number of zero
  entries of the outcome list.
\<close>

theorem montecarlo_outcome_and_count:
  assumes "returns \<noteq> []" and "infl_rate \<noteq> []" and "0 < start_value p"
  shows "\<exists>outcome bankrupt_count.
           montecarlo p returns infl_rate rng = Inr (outcome, bankrupt_count)
           \<and> length outcome = num_cases p
           \<and> outcome = map (\<lambda>k. recorded p returns infl_rate (rng k)) [0..<num_cases p]
           \<and> bankrupt_count =
               length (filter (\<lambda>k. insolvent p returns infl_rate (rng k)) [0..<num_cases p])
           \<and> bankrupt_count = length (filter (\<lambda>x. x = 0) outcome)"
proof -
  let ?out = "map (\<lambda>k. recorded p returns infl_rate (rng k)) [0..<num_cases p]"
  let ?bc = "length (filter (\<lambda>k. insolvent p returns infl_rate (rng k)) [0..<num_cases p])"
  have m: "montecarlo p returns infl_rate rng = Inr (?out, ?bc)"
    using montecarlo_loop_closed [OF assms(1,2), of 0 p rng 0 "[]"]
    by (simp add: montecarlo_def)
  have z: "?bc = length (filter (\<lambda>x. x = 0) ?out)"
    by (simp add: filter_map comp_def recorded_zero_iff [OF assms])
  from m z show ?thesis by simp
qed

theorem montecarlo_outcome_and_count_witness:
  "\<exists>outcome bankrupt_count.
     montecarlo (default_params\<lparr>num_cases := 3\<rparr>) [1 / 10, - 1 / 2] [0, 1 / 20]
       (\<lambda>k. (k, 20 + of_nat k / 2)) = Inr (outcome, bankrupt_count)
     \<and> length outcome = 3
     \<and> bankrupt_count = length (filter (\<lambda>x. x = 0) outcome)"
  using montecarlo_outcome_and_count [of "[1 / 10, - 1 / 2]" "[0, 1 / 20]" "default_params\<lparr>num_cases := 3\<rparr>"
              "\<lambda>k. (k, 20 + of_nat k / 2)"]
  by (simp add: default_params_def)



text \<open>
  C7. The check of the years at lines 100-104 lets \<open>max_years = 99\<close> through, and the
  script goes on to the simulation; 100 is the first value it rejects. The message the
  script prints on rejection ends \<^verbatim>\<open>with Max < 99\<close>.
\<close>

theorem max_years_99_not_rejected:
  "\<not> years_rejected (default_params\<lparr>max_years := 99\<rparr>)
   \<and> years_rejected (default_params\<lparr>max_years := 100\<rparr>)
   \<and> script (default_params\<lparr>max_years := 99\<rparr>) returns infl_rate rng =
       main (default_params\<lparr>max_years := 99\<rparr>) returns infl_rate rng"
  by (simp add: years_rejected_def default_params_def script_def)

theorem max_years_99_not_rejected_witness:
  "years_rejected (default_params\<lparr>max_years := 99\<rparr>) = False
   \<and> script (default_params\<lparr>max_years := 99\<rparr>) [] [] (\<lambda>k. (0, 0)) =
       main (default_params\<lparr>max_years := 99\<rparr>) [] [] (\<lambda>k. (0, 0))"
  using max_years_99_not_rejected [of "[]" "[]" "\<lambda>k. (0, 0)"] by simp

text \<open>
  C8. With \<open>num_cases = 0\<close> nothing is rejected: \<^const>\<open>montecarlo\<close> returns the empty
  outcome list and the count 0 without running a case, and the script ends in
  \<^const>\<open>bankrupt_prob\<close> with a division by zero. An empty return series is met only by
  \<^verbatim>\<open>random.randrange\<close> inside the first case, which raises \<^const>\<open>ValueError\<close>.
\<close>

theorem zero_cases_reach_division:
  "montecarlo (default_params\<lparr>num_cases := 0\<rparr>) returns infl_rate rng = Inr ([], 0)
   \<and> script (default_params\<lparr>num_cases := 0\<rparr>) returns infl_rate rng = Inl ZeroDivisionError
   \<and> script default_params [] infl_rate rng = Inl ValueError"
proof (intro conjI)
  show m: "montecarlo (default_params\<lparr>num_cases := 0\<rparr>) returns infl_rate rng = Inr ([], 0)"
    unfolding montecarlo_def by (subst montecarlo_loop.simps) simp
  have y0: "\<not> years_rejected (default_params\<lparr>num_cases := 0\<rparr>)"
    by (simp add: years_rejected_def default_params_def)
  have b0: "bankrupt_prob [] 0 = Inl ZeroDivisionError"
    by (simp add: bankrupt_prob_def)
  show "script (default_params\<lparr>num_cases := 0\<rparr>) returns infl_rate rng = Inl ZeroDivisionError"
    by (simp only: script_def y0 if_False main_def m sum.case prod.case b0)
  have y: "\<not> years_rejected default_params"
    by (simp add: years_rejected_def default_params_def)
  have v: "montecarlo default_params [] infl_rate rng = Inl ValueError"
    unfolding montecarlo_def
    by (subst montecarlo_loop.simps)
       (simp add: default_params_def run_case_def trial_def randrange_def)
  show "script default_params [] infl_rate rng = Inl ValueError"
    by (simp only: script_def y if_False main_def v sum.case)
qed

theorem zero_cases_reach_division_witness:
  "script (default_params\<lparr>num_cases := 0\<rparr>) [1 / 10] [0] (\<lambda>k. (0, 20)) = Inl ZeroDivisionError"
  using zero_cases_reach_division [of "[1 / 10]" "[0]" "\<lambda>k. (0, 20)"] by simp



text \<open>
  C10. In a year whose balance after the withdrawal is at or below zero and whose return
  rate is at least \<open>-1\<close>, the balance after growth is at or below zero as well, so the
  loop ends in that year with the case flagged insolvent.
\<close>

theorem withdrawal_ruin_flagged_same_year:
  assumes "year_step w index infl i bal wia = Inr (adj, after_withdrawal, after_growth)"
      and "after_withdrawal \<le> 0" and "- 1 \<le> i"
      and "py_get li (int index) = Inr infl"
  shows "after_growth \<le> 0
         \<and> year_loop w li ((index, i) # rest) bal wia = Inr (after_growth, True)"
proof -
  from assms(1) have ag: "after_growth = py_int (of_int after_withdrawal * (1 + i))"
    by (auto simp: year_step_def split: sum.splits if_splits option.splits)
  have "of_int after_withdrawal * (1 + i) \<le> 0"
    using assms(2,3) by (simp add: mult_nonpos_nonneg)
  then have "after_growth \<le> 0" unfolding ag by (rule py_int_le_zero)
  then show ?thesis using assms(1,4) by simp
qed

theorem withdrawal_ruin_flagged_same_year_witness:
  "year_step 150 0 0 0 100 None = Inr (150, - 50, - 50)
   \<and> year_loop 150 [0, 0] [(0, 0), (1, 0)] 100 None = Inr (- 50, True)"
proof -
  have s: "year_step 150 0 0 0 100 None = Inr (150, - 50, - 50)"
    by (simp add: year_step_def py_int_def)
  have g: "py_get [0, 0 :: rat] (int 0) = Inr 0"
    by (simp add: py_get_def)
  from withdrawal_ruin_flagged_same_year [OF s _ _ g, of "[(1, 0)]"] s show ?thesis by simp
qed

end
